theory Spec2Isabelle
  imports Main "HOL-Library.AList"
begin

section \<open>The VMAPI resolver of lib/resolver.js\<close>

text \<open>
  The resolver polls an inventory service for virtual machines and tells a subscriber
  which backends were added and which were removed. This theory embeds the resolver
  object, its reconciliation \<open>diffAndEmit\<close>, and the five states of its state machine
  (\<open>stopped\<close>, \<open>starting\<close>, \<open>running\<close>, \<open>failed\<close>, \<open>stopping\<close>) as functions on an
  explicit state.
\<close>

subsection \<open>Data\<close>

text \<open>
  \<open>getBackends\<close> hands its callback objects with the fields \<open>name\<close> and \<open>address\<close>;
  \<open>diffAndEmit\<close> builds from each an object with the further fields \<open>port\<close> and \<open>key\<close>.
\<close>

record endpoint =
  name :: string
  address :: string

record backend = endpoint +
  port :: int
  key :: string

text \<open>
  \<open>vmr_backends\<close> is a plain JavaScript object used as a dictionary from key to backend.
  \<open>Object.keys\<close> lists the keys in the order of their first assignment (the keys are
  twelve base64 characters, never an array index), so the object is an association list:
  \<open>map fst\<close> is \<open>Object.keys\<close>, \<open>map_of\<close> is the property read (\<open>None\<close> for
  \<open>undefined\<close>) and \<open>AList.update\<close> the property write, which keeps the place of a key
  that is already there and puts a new key last.
\<close>

type_synonym backends = "(string \<times> backend) list"

text \<open>The two events the resolver emits: \<open>added\<close> with key and backend, \<open>removed\<close> with key.\<close>

datatype event = Added string "backend option" | Removed string

datatype fsm_state = Stopped | Starting | Running | Failed | Stopping

text \<open>
  \<open>vmr_lastRemoved\<close> holds keys after \<open>diffAndEmit\<close> and whole backends after
  \<open>state_stopping\<close>.
\<close>

datatype removed_entry = RemovedKey string | RemovedBackend backend

text \<open>
  Every entry of a state gets a fresh state handle \<open>S\<close> from the state machine; handles
  are numbered. The closures the code hands to \<open>getBackends\<close> and to \<open>setInterval\<close> are
  values: the callback of \<open>state_starting\<close> with its handle, the callback of a poll of
  \<open>state_running\<close>, and the callback of a poll of \<open>state_failed\<close> with its handle (whose
  number also names the \<open>interval\<close> variable of that entry).
\<close>

datatype fetch_cb = CbStarting nat | CbRunning | CbFailed nat

datatype interval = TickRunning nat | TickFailed nat

fun interval_id :: "interval \<Rightarrow> nat" where
  "interval_id (TickRunning h) = h"
| "interval_id (TickFailed h) = h"

text \<open>
  The resolver object (the \<open>vmr_\<close> fields of the constructor, \<open>vmr_last_error\<close> which
  only \<open>getLastError\<close> mentions, and the state of the state machine), together with the
  part of the event loop the resolver owns: the number of calls of \<open>randomBytes\<close> made so
  far, the live interval timers and the calls of \<open>getBackends\<close> still in flight.
  \<open>vmr_lastPoll\<close> is \<open>True\<close> when it holds a time stamp and \<open>False\<close> when it is null.
\<close>

record resolver =
  vmr_backend_port :: int
  vmr_backends :: backends
  vmr_discovered_backends :: "endpoint list"
  vmr_lastPoll :: bool
  vmr_lastBackends :: backends
  vmr_lastAdded :: "string list"
  vmr_lastRemoved :: "removed_entry list"
  vmr_last_error :: "string option"
  fsm_state :: fsm_state
  fsm_handle :: nat
  random_calls :: nat
  intervals :: "interval list"
  in_flight :: "fetch_cb list"

text \<open>The object the constructor builds; the state machine starts in \<open>stopped\<close>.\<close>

definition VmapiResolver :: "int \<Rightarrow> resolver" where
  "VmapiResolver backend_port =
     \<lparr>vmr_backend_port = backend_port, vmr_backends = [], vmr_discovered_backends = [],
      vmr_lastPoll = False, vmr_lastBackends = [], vmr_lastAdded = [], vmr_lastRemoved = [],
      vmr_last_error = None, fsm_state = Stopped, fsm_handle = 0, random_calls = 0,
      intervals = [], in_flight = []\<rparr>"

subsection \<open>Reconciliation\<close>

text \<open>
  The inner loop of \<open>diffAndEmit\<close>: every key of the old set whose backend has the
  address and the name of the discovered one sets \<open>found\<close> and overwrites \<open>be.key\<close>, so the
  last such key stays. \<open>None\<close> is \<open>found = false\<close>.
\<close>

definition same_backend :: "backend \<Rightarrow> endpoint \<Rightarrow> bool" where
  "same_backend old_backend be = (address old_backend = address be \<and> name old_backend = name be)"

definition find_key :: "backends \<Rightarrow> endpoint \<Rightarrow> string option" where
  "find_key old be =
     fold (\<lambda>k found. case map_of old k of
                         Some old_backend \<Rightarrow> if same_backend old_backend be then Some k else found
                       | None \<Rightarrow> found)
          (map fst old) None"

definition mk_backend :: "int \<Rightarrow> endpoint \<Rightarrow> string \<Rightarrow> backend" where
  "mk_backend p be k = \<lparr>name = name be, address = address be, port = p, key = k\<rparr>"

text \<open>
  One round of the outer loop, on the triple of \<open>added\<close>, \<open>new_backends\<close> and the number
  of random keys drawn. \<open>rnd n\<close> is the string that call number \<open>n\<close> of
  \<open>randomBytes(9).toString('base64')\<close> returns.
\<close>

definition diff_each ::
  "(nat \<Rightarrow> string) \<Rightarrow> int \<Rightarrow> backends \<Rightarrow> endpoint \<Rightarrow>
   string list \<times> backends \<times> nat \<Rightarrow> string list \<times> backends \<times> nat" where
  "diff_each rnd p old be = (\<lambda>(added, new_backends, n).
     case find_key old be of
       Some k \<Rightarrow> (added, AList.update k (mk_backend p be k) new_backends, n)
     | None \<Rightarrow> (added @ [rnd n], AList.update (rnd n) (mk_backend p be (rnd n)) new_backends, Suc n))"

definition diff_loop ::
  "(nat \<Rightarrow> string) \<Rightarrow> int \<Rightarrow> backends \<Rightarrow> endpoint list \<Rightarrow>
   string list \<times> backends \<times> nat \<Rightarrow> string list \<times> backends \<times> nat" where
  "diff_loop rnd p old discovered acc = fold (diff_each rnd p old) discovered acc"

definition removed_keys :: "backends \<Rightarrow> backends \<Rightarrow> string list" where
  "removed_keys old new_backends = filter (\<lambda>k. map_of new_backends k = None) (map fst old)"

definition diffAndEmit :: "(nat \<Rightarrow> string) \<Rightarrow> resolver \<Rightarrow> resolver \<times> event list" where
  "diffAndEmit rnd r =
     (case diff_loop rnd (vmr_backend_port r) (vmr_backends r) (vmr_discovered_backends r)
             ([], [], random_calls r) of
        (added, new_backends, n) \<Rightarrow>
          (let removed = removed_keys (vmr_backends r) new_backends
           in (r\<lparr>vmr_lastBackends :=
                     (if added \<noteq> [] \<or> removed \<noteq> [] then vmr_backends r else vmr_lastBackends r),
                  vmr_backends := new_backends,
                  vmr_lastAdded := added,
                  vmr_lastRemoved := map RemovedKey removed,
                  random_calls := n\<rparr>,
               map (\<lambda>k. Added k (map_of new_backends k)) added @ map Removed removed)))"

subsection \<open>The states\<close>

text \<open>
  \<open>enter\<close> is the bookkeeping of the state machine on a transition: the new state and a
  fresh handle. The functions \<open>state_*\<close> are the entry functions of the source.
\<close>

definition enter :: "fsm_state \<Rightarrow> resolver \<Rightarrow> resolver" where
  "enter st r = r\<lparr>fsm_state := st, fsm_handle := Suc (fsm_handle r)\<rparr>"

definition clearInterval :: "nat \<Rightarrow> resolver \<Rightarrow> resolver" where
  "clearInterval h r = r\<lparr>intervals := filter (\<lambda>t. interval_id t \<noteq> h) (intervals r)\<rparr>"

definition state_starting :: "resolver \<Rightarrow> resolver" where
  "state_starting r = r\<lparr>in_flight := in_flight r @ [CbStarting (fsm_handle r)]\<rparr>"

definition state_running :: "(nat \<Rightarrow> string) \<Rightarrow> resolver \<Rightarrow> resolver \<times> event list" where
  "state_running rnd r =
     (case diffAndEmit rnd r of
        (r', evs) \<Rightarrow> (r'\<lparr>intervals := intervals r' @ [TickRunning (fsm_handle r')]\<rparr>, evs))"

definition state_failed :: "resolver \<Rightarrow> resolver" where
  "state_failed r = r\<lparr>intervals := intervals r @ [TickFailed (fsm_handle r)]\<rparr>"

definition state_stopping :: "resolver \<Rightarrow> resolver \<times> event list" where
  "state_stopping r =
     (let removed = List.map_filter (map_of (vmr_backends r)) (map fst (vmr_backends r))
      in (r\<lparr>vmr_lastRemoved := map RemovedBackend removed, vmr_backends := []\<rparr>,
          map (\<lambda>to_remove. Removed (key to_remove)) removed))"

subsection \<open>What can happen to a resolver\<close>

text \<open>
  The caller calls \<open>start\<close> or \<open>stop\<close>; the event loop fires a live interval timer (by its
  place in \<open>intervals\<close>), completes a call of \<open>getBackends\<close> in flight (by its place in
  \<open>in_flight\<close>) with an error or a list of endpoints, or runs the immediate that
  \<open>state_stopping\<close> set.
\<close>

datatype fetch_result = FetchError string | FetchOk "endpoint list"

datatype input = Start | Stop | Tick nat | FetchDone nat fetch_result | Immediate

text \<open>
  A failed \<open>mod_assert.ok\<close> and a \<open>gotoState\<close> through a handle of a state that was
  left both throw; the resolver as the exception leaves it is kept.
\<close>

datatype exn = AssertionError | StaleStateHandle

datatype outcome = Done resolver "event list" | Threw exn resolver | NotEnabled

definition gotoState_running :: "(nat \<Rightarrow> string) \<Rightarrow> nat \<Rightarrow> resolver \<Rightarrow> outcome" where
  "gotoState_running rnd h r =
     (if fsm_handle r = h
      then (case state_running rnd (enter Running r) of (r', evs) \<Rightarrow> Done r' evs)
      else Threw StaleStateHandle r)"

text \<open>
  The interval callback of \<open>state_running\<close> and of \<open>state_failed\<close>: nothing while
  \<open>vmr_lastPoll\<close> is set, else a new call of \<open>getBackends\<close>.
\<close>

definition poll :: "interval \<Rightarrow> resolver \<Rightarrow> resolver" where
  "poll t r =
     (if vmr_lastPoll r then r
      else r\<lparr>vmr_lastPoll := True,
              in_flight := in_flight r @
                [case t of TickRunning h \<Rightarrow> CbRunning | TickFailed h \<Rightarrow> CbFailed h]\<rparr>)"

text \<open>The three callbacks given to \<open>getBackends\<close>.\<close>

definition callback :: "(nat \<Rightarrow> string) \<Rightarrow> fetch_cb \<Rightarrow> fetch_result \<Rightarrow> resolver \<Rightarrow> outcome" where
  "callback rnd cb res r =
     (case cb of
        CbStarting h \<Rightarrow>
          (case res of
             FetchError err \<Rightarrow>
               (if fsm_state r = Starting then Done (state_failed (enter Failed r)) []
                else Done r [])
           | FetchOk bs \<Rightarrow> gotoState_running rnd h (r\<lparr>vmr_discovered_backends := bs\<rparr>))
      | CbRunning \<Rightarrow>
          (case res of
             FetchError err \<Rightarrow> Done (r\<lparr>vmr_lastPoll := False\<rparr>) []
           | FetchOk bs \<Rightarrow>
               (case diffAndEmit rnd (r\<lparr>vmr_lastPoll := False, vmr_discovered_backends := bs\<rparr>) of
                  (r', evs) \<Rightarrow> Done r' evs))
      | CbFailed h \<Rightarrow>
          (case res of
             FetchError err \<Rightarrow> Done (r\<lparr>vmr_lastPoll := False\<rparr>) []
           | FetchOk bs \<Rightarrow>
               gotoState_running rnd h
                 ((clearInterval h (r\<lparr>vmr_lastPoll := False\<rparr>))\<lparr>vmr_discovered_backends := bs\<rparr>)))"

definition start :: "resolver \<Rightarrow> outcome" where
  "start r =
     (if fsm_state r = Stopped then Done (state_starting (enter Starting r)) []
      else Threw AssertionError r)"

definition stop :: "resolver \<Rightarrow> outcome" where
  "stop r =
     (if fsm_state r = Running \<or> fsm_state r = Failed
      then (case state_stopping (enter Stopping (clearInterval (fsm_handle r) r)) of
              (r', evs) \<Rightarrow> Done r' evs)
      else Threw AssertionError r)"

definition step :: "(nat \<Rightarrow> string) \<Rightarrow> resolver \<Rightarrow> input \<Rightarrow> outcome" where
  "step rnd r i =
     (case i of
        Start \<Rightarrow> start r
      | Stop \<Rightarrow> stop r
      | Tick n \<Rightarrow>
          (if n < length (intervals r) then Done (poll (intervals r ! n) r) [] else NotEnabled)
      | FetchDone n res \<Rightarrow>
          (if n < length (in_flight r)
           then callback rnd (in_flight r ! n) res
                  (r\<lparr>in_flight := take n (in_flight r) @ drop (Suc n) (in_flight r)\<rparr>)
           else NotEnabled)
      | Immediate \<Rightarrow>
          (if fsm_state r = Stopping then Done (enter Stopped r) [] else NotEnabled))"

text \<open>
  A run: the inputs one after the other, the events collected. A run ends (\<open>None\<close>) at
  an input that cannot happen and at an exception.
\<close>

fun run :: "(nat \<Rightarrow> string) \<Rightarrow> resolver \<Rightarrow> input list \<Rightarrow> (resolver \<times> event list) option" where
  "run rnd r [] = Some (r, [])"
| "run rnd r (i # is) =
     (case step rnd r i of
        Done r' evs \<Rightarrow>
          (case run rnd r' is of
             Some (r'', evs') \<Rightarrow> Some (r'', evs @ evs')
           | None \<Rightarrow> None)
      | Threw e r' \<Rightarrow> None
      | NotEnabled \<Rightarrow> None)"

subsection \<open>The queries\<close>

text \<open>
  \<open>count\<close> reads the property \<open>length\<close> of the dictionary, \<open>getLastError\<close> the field
  \<open>vmr_last_error\<close>, \<open>list\<close> returns the dictionary. \<open>None\<close> is \<open>undefined\<close>.
\<close>

definition count :: "resolver \<Rightarrow> backend option" where
  "count r = map_of (vmr_backends r) ''length''"

definition getLastError :: "resolver \<Rightarrow> string option" where
  "getLastError r = vmr_last_error r"

definition list :: "resolver \<Rightarrow> backends" where
  "list r = vmr_backends r"

subsection \<open>Notions used in the statements\<close>

text \<open>
  The keys the outer loop of \<open>diffAndEmit\<close> gives to the discovered endpoints, in their
  order, the number of endpoints it finds no key for, and the writes to \<open>new_backends\<close>
  one after the other.
\<close>

fun assigned_keys :: "(nat \<Rightarrow> string) \<Rightarrow> backends \<Rightarrow> endpoint list \<Rightarrow> nat \<Rightarrow> string list" where
  "assigned_keys rnd old [] n = []"
| "assigned_keys rnd old (be # bes) n =
     (case find_key old be of
        Some k \<Rightarrow> k # assigned_keys rnd old bes n
      | None \<Rightarrow> rnd n # assigned_keys rnd old bes (Suc n))"

definition not_found :: "backends \<Rightarrow> endpoint list \<Rightarrow> nat" where
  "not_found old bes = length (filter (\<lambda>be. find_key old be = None) bes)"

definition put_all :: "int \<Rightarrow> (string \<times> endpoint) list \<Rightarrow> backends \<Rightarrow> backends" where
  "put_all p kes nb = fold (\<lambda>(k, be). AList.update k (mk_backend p be k)) kes nb"

text \<open>An event list in which no \<open>added\<close> follows a \<open>removed\<close>.\<close>

fun only_removed :: "event list \<Rightarrow> bool" where
  "only_removed [] = True"
| "only_removed (Removed k # evs) = only_removed evs"
| "only_removed (Added k b # evs) = False"

fun added_first :: "event list \<Rightarrow> bool" where
  "added_first [] = True"
| "added_first (Added k b # evs) = added_first evs"
| "added_first (Removed k # evs) = only_removed evs"

text \<open>
  A dictionary whose keys are pairwise different and whose backends carry their own key in
  the field \<open>key\<close>.
\<close>

definition keyed :: "backends \<Rightarrow> bool" where
  "keyed bs = (distinct (map fst bs) \<and> list_all (\<lambda>(k, b). key b = k) bs)"

text \<open>
  A callback of a poll (of \<open>state_running\<close> or \<open>state_failed\<close>), as opposed to the one
  of \<open>state_starting\<close>; and the guard of the poll loop: \<open>vmr_lastPoll\<close> is set exactly
  while one poll is in flight, and there is never more than one.
\<close>

fun is_poll :: "fetch_cb \<Rightarrow> bool" where
  "is_poll (CbStarting h) = False"
| "is_poll CbRunning = True"
| "is_poll (CbFailed h) = True"

definition poll_guard :: "resolver \<Rightarrow> bool" where
  "poll_guard r = (length (filter is_poll (in_flight r)) = (if vmr_lastPoll r then 1 else 0))"

text \<open>
  A live interval timer belongs to the present entry of \<open>running\<close> or \<open>failed\<close>; the
  callback of \<open>state_starting\<close> is in flight only during that entry of \<open>starting\<close>, and
  at most once; a callback of a poll of \<open>state_failed\<close> holds the handle of the present
  entry of \<open>failed\<close> or of an earlier entry.
\<close>

fun interval_live :: "nat \<Rightarrow> fsm_state \<Rightarrow> interval \<Rightarrow> bool" where
  "interval_live h st (TickRunning h') = (h' = h \<and> st = Running)"
| "interval_live h st (TickFailed h') = (h' = h \<and> st = Failed)"

fun callback_live :: "nat \<Rightarrow> fsm_state \<Rightarrow> fetch_cb \<Rightarrow> bool" where
  "callback_live h st (CbStarting h') = (h' = h \<and> st = Starting)"
| "callback_live h st CbRunning = True"
| "callback_live h st (CbFailed h') = (h' < h \<or> (h' = h \<and> st = Failed))"

definition handles_wf :: "resolver \<Rightarrow> bool" where
  "handles_wf r =
     (list_all (interval_live (fsm_handle r) (fsm_state r)) (intervals r) \<and>
      list_all (callback_live (fsm_handle r) (fsm_state r)) (in_flight r) \<and>
      length (filter (\<lambda>cb. \<not> is_poll cb) (in_flight r)) \<le> 1)"

definition invariant :: "resolver \<Rightarrow> bool" where
  "invariant r = (keyed (vmr_backends r) \<and> poll_guard r \<and> handles_wf r)"



subsection \<open>Example values\<close>

text \<open>A source of random keys that returns the given strings in order.\<close>

definition keys_from :: "string list \<Rightarrow> nat \<Rightarrow> string" where
  "keys_from ks n = (if n < length ks then ks ! n else [])"

definition example_keys :: "nat \<Rightarrow> string" where
  "example_keys = keys_from [''q83vEjRWeJAS'', ''EjRWeJq83vAB'', ''VniavN7wEjRW'']"

definition db1 :: endpoint where
  "db1 = \<lparr>name = ''db1'', address = ''10.0.0.1''\<rparr>"

definition db2 :: endpoint where
  "db2 = \<lparr>name = ''db2'', address = ''10.0.0.2''\<rparr>"

text \<open>A resolver that advertises \<open>db1\<close> and has just discovered \<open>db2\<close> alone.\<close>

definition db1_then_db2 :: resolver where
  "db1_then_db2 =
     (VmapiResolver 5432)\<lparr>vmr_backends := [(''q83vEjRWeJAS'', mk_backend 5432 db1 ''q83vEjRWeJAS'')],
                             vmr_discovered_backends := [db2], random_calls := 1\<rparr>"

text \<open>
  States of the run that starts a resolver on port 5432: polling while \<open>db1\<close> is
  advertised, polling after the first query failed, running with \<open>db1\<close> and \<open>db2\<close>, and
  stopped while the poll of either of the first two is still in flight.
\<close>

definition polling_db1 :: resolver where
  "polling_db1 =
     (VmapiResolver 5432)\<lparr>vmr_backends := [(''q83vEjRWeJAS'', mk_backend 5432 db1 ''q83vEjRWeJAS'')],
                             vmr_discovered_backends := [db1], vmr_lastPoll := True,
                             vmr_lastAdded := [''q83vEjRWeJAS''], fsm_state := Running,
                             fsm_handle := 2, random_calls := 1, intervals := [TickRunning 2],
                             in_flight := [CbRunning]\<rparr>"

definition polling_failed :: resolver where
  "polling_failed =
     (VmapiResolver 5432)\<lparr>vmr_lastPoll := True, fsm_state := Failed, fsm_handle := 2,
                             intervals := [TickFailed 2], in_flight := [CbFailed 2]\<rparr>"

definition running_two :: resolver where
  "running_two =
     (VmapiResolver 5432)\<lparr>vmr_backends := [(''q83vEjRWeJAS'', mk_backend 5432 db1 ''q83vEjRWeJAS''),
                                              (''EjRWeJq83vAB'', mk_backend 5432 db2 ''EjRWeJq83vAB'')],
                             vmr_discovered_backends := [db1, db2],
                             vmr_lastAdded := [''q83vEjRWeJAS'', ''EjRWeJq83vAB''],
                             fsm_state := Running, fsm_handle := 2, random_calls := 2,
                             intervals := [TickRunning 2]\<rparr>"

definition stopped_polling :: resolver where
  "stopped_polling =
     (VmapiResolver 5432)\<lparr>vmr_discovered_backends := [db1], vmr_lastPoll := True,
                             vmr_lastAdded := [''q83vEjRWeJAS''],
                             vmr_lastRemoved := [RemovedBackend (mk_backend 5432 db1 ''q83vEjRWeJAS'')],
                             fsm_state := Stopped, fsm_handle := 4, random_calls := 1,
                             in_flight := [CbRunning]\<rparr>"

definition stopped_failed_polling :: resolver where
  "stopped_failed_polling =
     (VmapiResolver 5432)\<lparr>vmr_lastPoll := True, fsm_state := Stopped, fsm_handle := 4,
                             in_flight := [CbFailed 2]\<rparr>"

text \<open>
  A resolver that has discovered \<open>db1\<close> twice, once while it advertises \<open>db1\<close> and once
  while it advertises nothing.
\<close>

definition db1_twice_known :: resolver where
  "db1_twice_known =
     (VmapiResolver 5432)\<lparr>vmr_backends := [(''q83vEjRWeJAS'', mk_backend 5432 db1 ''q83vEjRWeJAS'')],
                             vmr_discovered_backends := [db1, db1], random_calls := 1\<rparr>"

definition db1_twice_new :: resolver where
  "db1_twice_new = (VmapiResolver 5432)\<lparr>vmr_discovered_backends := [db1, db1]\<rparr>"





lemmas example_defs =
  keys_from_def example_keys_def db1_def db2_def db1_then_db2_def VmapiResolver_def

lemmas resolver_defs =
  step_def start_def stop_def callback_def poll_def enter_def clearInterval_def
  state_starting_def state_running_def state_failed_def state_stopping_def
  gotoState_running_def diffAndEmit_def diff_loop_def diff_each_def find_key_def
  removed_keys_def mk_backend_def same_backend_def List.map_filter_def

lemmas state_defs =
  polling_db1_def polling_failed_def running_two_def stopped_polling_def
  stopped_failed_polling_def


section \<open>The reconciliation loop\<close>

lemma find_key_fold_Some:
  "fold (\<lambda>k found. case map_of old k of
                         Some old_backend \<Rightarrow> if same_backend old_backend be then Some k else found
                       | None \<Rightarrow> found) ks acc = Some k
   \<Longrightarrow> acc = Some k \<or> (k \<in> set ks \<and> (\<exists>b. map_of old k = Some b \<and> same_backend b be))"
  by (induction ks arbitrary: acc) (auto split: option.splits if_splits)

lemma find_key_SomeD:
  "find_key old be = Some k \<Longrightarrow> \<exists>b. map_of old k = Some b \<and> same_backend b be"
  unfolding find_key_def by (drule find_key_fold_Some) auto

lemma find_key_fold_None:
  "fold (\<lambda>k found. case map_of old k of
                         Some old_backend \<Rightarrow> if same_backend old_backend be then Some k else found
                       | None \<Rightarrow> found) ks acc = None
   \<longleftrightarrow> acc = None \<and> (\<forall>k\<in>set ks. \<forall>b. map_of old k = Some b \<longrightarrow> \<not> same_backend b be)"
  by (induction ks arbitrary: acc) (auto split: option.splits if_splits)

lemma find_key_None_iff:
  "find_key old be = None \<longleftrightarrow> (\<forall>k b. map_of old k = Some b \<longrightarrow> \<not> same_backend b be)"
proof -
  have "k \<in> set (map fst old)" if "map_of old k = Some b" for k b
    using map_of_SomeD[OF that] by force
  then show ?thesis
    unfolding find_key_def find_key_fold_None by blast
qed

lemma not_found_Cons:
  "not_found old (be # bes) = (if find_key old be = None then Suc (not_found old bes) else not_found old bes)"
  by (simp add: not_found_def)

lemma diff_loop_eq:
  "diff_loop rnd p old bes (added, nb, n) =
     (added @ map rnd [n..<n + not_found old bes],
      put_all p (zip (assigned_keys rnd old bes n) bes) nb,
      n + not_found old bes)"
proof (induction bes arbitrary: added nb n)
  case Nil
  then show ?case by (simp add: diff_loop_def put_all_def not_found_def)
next
  case (Cons be bes)
  show ?case
  proof (cases "find_key old be")
    case None
    have "diff_loop rnd p old (be # bes) (added, nb, n) =
          diff_loop rnd p old bes (added @ [rnd n], AList.update (rnd n) (mk_backend p be (rnd n)) nb, Suc n)"
      using None by (simp add: diff_loop_def diff_each_def)
    moreover have "map rnd [n..<n + Suc (not_found old bes)] =
                   rnd n # map rnd [Suc n..<Suc n + not_found old bes]"
      by (subst upt_rec) simp
    ultimately show ?thesis
      using None Cons.IH by (simp add: not_found_Cons put_all_def)
  next
    case (Some k)
    have "diff_loop rnd p old (be # bes) (added, nb, n) =
          diff_loop rnd p old bes (added, AList.update k (mk_backend p be k) nb, n)"
      using Some by (simp add: diff_loop_def diff_each_def)
    then show ?thesis
      using Some Cons.IH by (simp add: not_found_Cons put_all_def)
  qed
qed

lemma length_assigned_keys: "length (assigned_keys rnd old bes n) = length bes"
  by (induction bes arbitrary: n) (auto split: option.splits)

lemma assigned_keys_origin:
  "(k, be) \<in> set (zip (assigned_keys rnd old bes n) bes) \<Longrightarrow>
     find_key old be = Some k \<or>
     (find_key old be = None \<and> k \<in> rnd ` {n..<n + not_found old bes})"
proof (induction bes arbitrary: n)
  case Nil
  then show ?case by simp
next
  case (Cons a bes)
  show ?case
  proof (cases "find_key old a")
    case None
    with Cons.prems have "(k, be) = (rnd n, a) \<or> (k, be) \<in> set (zip (assigned_keys rnd old bes (Suc n)) bes)"
      by simp
    then show ?thesis
    proof
      assume "(k, be) = (rnd n, a)"
      then show ?thesis using None by (auto simp: not_found_Cons)
    next
      assume "(k, be) \<in> set (zip (assigned_keys rnd old bes (Suc n)) bes)"
      from Cons.IH[OF this] show ?thesis using None
        by (auto simp: not_found_Cons)
    qed
  next
    case (Some k')
    with Cons.prems have "(k, be) = (k', a) \<or> (k, be) \<in> set (zip (assigned_keys rnd old bes n) bes)"
      by simp
    then show ?thesis
    proof
      assume "(k, be) = (k', a)"
      then show ?thesis using Some by auto
    next
      assume "(k, be) \<in> set (zip (assigned_keys rnd old bes n) bes)"
      from Cons.IH[OF this] show ?thesis using Some
        by (auto simp: not_found_Cons)
    qed
  qed
qed

lemma set_update_subset:
  "set (AList.update k v al) \<subseteq> insert (k, v) (set al)"
  by (induction al) auto

lemma set_put_all:
  "set (put_all p kes nb) \<subseteq> set nb \<union> (\<lambda>(k, be). (k, mk_backend p be k)) ` set kes"
proof (induction kes arbitrary: nb)
  case Nil
  then show ?case by (simp add: put_all_def)
next
  case (Cons ke kes)
  obtain k be where ke: "ke = (k, be)" by (cases ke)
  have "put_all p (ke # kes) nb = put_all p kes (AList.update k (mk_backend p be k) nb)"
    by (simp add: put_all_def ke)
  moreover have "set (AList.update k (mk_backend p be k) nb) \<subseteq> insert (k, mk_backend p be k) (set nb)"
    by (rule set_update_subset)
  ultimately show ?case using Cons.IH[of "AList.update k (mk_backend p be k) nb"] ke
    by auto
qed

lemma distinct_put_all:
  "distinct (map fst nb) \<Longrightarrow> distinct (map fst (put_all p kes nb))"
  by (induction kes arbitrary: nb) (auto simp: put_all_def distinct_update)

lemma diffAndEmit_backends:
  "vmr_backends (fst (diffAndEmit rnd r)) =
     put_all (vmr_backend_port r)
       (zip (assigned_keys rnd (vmr_backends r) (vmr_discovered_backends r) (random_calls r))
            (vmr_discovered_backends r)) []"
  by (simp add: diffAndEmit_def diff_loop_eq Let_def)

lemma diffAndEmit_random_calls:
  "random_calls (fst (diffAndEmit rnd r)) =
     random_calls r + not_found (vmr_backends r) (vmr_discovered_backends r)"
  by (simp add: diffAndEmit_def diff_loop_eq Let_def)

lemma diffAndEmit_events:
  "snd (diffAndEmit rnd r) =
     map (\<lambda>k. Added k (map_of (vmr_backends (fst (diffAndEmit rnd r))) k))
         (map rnd [random_calls r..<random_calls (fst (diffAndEmit rnd r))]) @
     map Removed (removed_keys (vmr_backends r) (vmr_backends (fst (diffAndEmit rnd r))))"
  by (simp add: diffAndEmit_def diff_loop_eq Let_def)

lemma diffAndEmit_frame:
  "vmr_backend_port (fst (diffAndEmit rnd r)) = vmr_backend_port r"
  "vmr_discovered_backends (fst (diffAndEmit rnd r)) = vmr_discovered_backends r"
  "vmr_lastPoll (fst (diffAndEmit rnd r)) = vmr_lastPoll r"
  "vmr_last_error (fst (diffAndEmit rnd r)) = vmr_last_error r"
  "fsm_state (fst (diffAndEmit rnd r)) = fsm_state r"
  "fsm_handle (fst (diffAndEmit rnd r)) = fsm_handle r"
  "intervals (fst (diffAndEmit rnd r)) = intervals r"
  "in_flight (fst (diffAndEmit rnd r)) = in_flight r"
  by (simp_all add: diffAndEmit_def diff_loop_eq Let_def)

lemma added_first_append:
  "added_first (map (\<lambda>k. Added k (f k)) ks @ map Removed ks') "
proof -
  have "only_removed (map Removed ks')" by (induction ks') auto
  then have "added_first (map Removed ks')" by (cases ks') auto
  then show ?thesis by (induction ks) auto
qed

section \<open>Order of the events of one reconciliation\<close>

text \<open>
  C9. The events that one call of \<open>diffAndEmit\<close> emits are all its \<open>added\<close> events
  followed by all its \<open>removed\<close> events: no \<open>added\<close> event comes after a \<open>removed\<close> one.
\<close>

theorem diffAndEmit_added_first: "added_first (snd (diffAndEmit rnd r))"
  by (subst diffAndEmit_events) (rule added_first_append)

theorem diffAndEmit_added_first_witness:
  "added_first (snd (diffAndEmit example_keys db1_then_db2)) \<and>
   snd (diffAndEmit example_keys db1_then_db2) =
     [Added ''EjRWeJq83vAB'' (Some (mk_backend 5432 db2 ''EjRWeJq83vAB'')),
      Removed ''q83vEjRWeJAS'']"
  using diffAndEmit_added_first [of example_keys db1_then_db2]
  by (simp add: example_defs resolver_defs)

section \<open>Invariants of a run\<close>

lemma state_running_eq:
  "state_running rnd r =
     (fst (diffAndEmit rnd r)\<lparr>intervals := intervals r @ [TickRunning (fsm_handle r)]\<rparr>,
      snd (diffAndEmit rnd r))"
  by (simp add: state_running_def split_beta diffAndEmit_frame)

lemma filter_take_drop:
  "n < length xs \<Longrightarrow>
   length (filter P (take n xs @ drop (Suc n) xs)) =
   length (filter P xs) - (if P (xs ! n) then 1 else 0)"
proof -
  assume "n < length xs"
  then have "xs = take n xs @ xs ! n # drop (Suc n) xs" by (rule id_take_nth_drop)
  then have "length (filter P xs) = length (filter P (take n xs @ xs ! n # drop (Suc n) xs))" by simp
  then show ?thesis by simp
qed

lemma filter_pos: "n < length xs \<Longrightarrow> P (xs ! n) \<Longrightarrow> 0 < length (filter P xs)"
  by (metis filter_empty_conv length_greater_0_conv nth_mem)

lemma step_poll_guard:
  assumes "poll_guard r" "step rnd r i = Done r' evs"
  shows "poll_guard r'"
proof (cases i)
  case Start
  with assms show ?thesis
    by (auto simp: step_def start_def poll_guard_def enter_def state_starting_def split: if_splits)
next
  case Stop
  with assms show ?thesis
    by (auto simp: step_def stop_def poll_guard_def enter_def state_stopping_def clearInterval_def Let_def split: if_splits)
next
  case (Tick n)
  with assms show ?thesis
    by (auto simp: step_def poll_def poll_guard_def split: if_splits interval.splits)
next
  case (FetchDone n res)
  with assms have n: "n < length (in_flight r)"
    by (auto simp: step_def split: if_splits)
  let ?rest = "take n (in_flight r) @ drop (Suc n) (in_flight r)"
  have len: "length (filter is_poll ?rest) =
             length (filter is_poll (in_flight r)) - (if is_poll (in_flight r ! n) then 1 else 0)"
    using n by (rule filter_take_drop)
  have pos: "is_poll (in_flight r ! n) \<Longrightarrow> vmr_lastPoll r \<and> length (filter is_poll ?rest) = 0"
    using filter_pos[OF n, of is_poll] assms(1) len by (auto simp: poll_guard_def split: if_splits)
  show ?thesis
  proof (cases "in_flight r ! n")
    case (CbStarting h)
    with assms FetchDone n len show ?thesis
      by (cases res)
         (auto simp: step_def callback_def poll_guard_def gotoState_running_def state_running_eq
               diffAndEmit_frame enter_def state_failed_def split: if_splits)
  next
    case CbRunning
    with assms FetchDone n pos show ?thesis
      by (cases res)
         (auto simp: step_def callback_def poll_guard_def split_beta diffAndEmit_frame)
  next
    case (CbFailed h)
    with assms FetchDone n pos show ?thesis
      by (cases res)
         (auto simp: step_def callback_def poll_guard_def gotoState_running_def state_running_eq
               diffAndEmit_frame enter_def clearInterval_def split: if_splits)
  qed
next
  case Immediate
  with assms show ?thesis
    by (auto simp: step_def poll_guard_def enter_def split: if_splits)
qed

lemma interval_live_state:
  "interval_live h st t \<Longrightarrow> st = Running \<or> st = Failed"
  by (cases t) auto

lemma no_intervals:
  assumes "handles_wf r" "fsm_state r \<noteq> Running" "fsm_state r \<noteq> Failed"
  shows "intervals r = []"
proof (cases "intervals r")
  case Nil
  then show ?thesis .
next
  case (Cons t ts)
  with assms(1) have "interval_live (fsm_handle r) (fsm_state r) t"
    by (simp add: handles_wf_def)
  then have "fsm_state r = Running \<or> fsm_state r = Failed"
    by (rule interval_live_state)
  with assms(2,3) show ?thesis by simp
qed

lemma callback_live_next:
  "callback_live h st cb \<Longrightarrow> is_poll cb \<Longrightarrow> callback_live (Suc h) st' cb"
  by (cases cb) auto

lemma callback_live_poll:
  "callback_live h st cb \<Longrightarrow> st \<noteq> Starting \<Longrightarrow> is_poll cb"
  by (cases cb) auto

lemma all_poll:
  assumes "handles_wf r" "fsm_state r \<noteq> Starting"
  shows "list_all is_poll (in_flight r)"
proof -
  have "list_all (callback_live (fsm_handle r) (fsm_state r)) (in_flight r)"
    using assms(1) by (simp add: handles_wf_def)
  then show ?thesis
    unfolding list_all_iff using assms(2) callback_live_poll by blast
qed

lemma list_all_next:
  "list_all (callback_live h st) cbs \<Longrightarrow> list_all is_poll cbs \<Longrightarrow>
   list_all (callback_live (Suc h) st') cbs"
  unfolding list_all_iff using callback_live_next by blast

lemma filter_not_poll: "list_all is_poll cbs \<Longrightarrow> filter (\<lambda>cb. \<not> is_poll cb) cbs = []"
  by (induction cbs) auto

lemma list_all_take_drop:
  assumes "list_all P xs"
  shows "list_all P (take n xs @ drop (Suc n) xs)"
proof -
  have "\<forall>x\<in>set xs. P x" using assms by (simp add: list_all_iff)
  moreover have "set (take n xs) \<subseteq> set xs" by (rule set_take_subset)
  moreover have "set (drop (Suc n) xs) \<subseteq> set xs" by (rule set_drop_subset)
  ultimately show ?thesis by (auto simp: list_all_iff)
qed

lemma length_filter_take_drop_le:
  "length (filter P (take n xs @ drop (Suc n) xs)) \<le> length (filter P xs)"
proof (cases "n < length xs")
  case True
  then show ?thesis by (simp only: filter_take_drop)
next
  case False
  then show ?thesis by simp
qed

lemma after_starting_all_poll:
  assumes "handles_wf r" "n < length (in_flight r)" "in_flight r ! n = CbStarting h"
  shows "list_all is_poll (take n (in_flight r) @ drop (Suc n) (in_flight r))"
    and "h = fsm_handle r" and "fsm_state r = Starting"
proof -
  let ?rest = "take n (in_flight r) @ drop (Suc n) (in_flight r)"
  have "length (filter (\<lambda>cb. \<not> is_poll cb) ?rest) =
        length (filter (\<lambda>cb. \<not> is_poll cb) (in_flight r)) - (if \<not> is_poll (in_flight r ! n) then 1 else 0)"
    using assms(2) by (rule filter_take_drop)
  with assms have "length (filter (\<lambda>cb. \<not> is_poll cb) ?rest) = 0"
    by (simp add: handles_wf_def)
  then have "filter (\<lambda>cb. \<not> is_poll cb) ?rest = []" by simp
  then show "list_all is_poll ?rest"
    unfolding list_all_iff filter_empty_conv by blast
  have "callback_live (fsm_handle r) (fsm_state r) (in_flight r ! n)"
    using assms(1,2) by (simp add: handles_wf_def list_all_length)
  then show "h = fsm_handle r" and "fsm_state r = Starting"
    using assms(3) by simp_all
qed

lemma no_other_interval:
  "list_all (interval_live h st) ts \<Longrightarrow> filter (\<lambda>t. interval_id t \<noteq> h) ts = []"
proof (induction ts)
  case Nil
  then show ?case by simp
next
  case (Cons t ts)
  then show ?case by (cases t) auto
qed

lemma step_handles_wf:
  assumes "handles_wf r" "step rnd r i = Done r' evs"
  shows "handles_wf r'"
proof -
  have cbs: "list_all (callback_live (fsm_handle r) (fsm_state r)) (in_flight r)"
    using assms(1) by (simp add: handles_wf_def)
  have ivs: "list_all (interval_live (fsm_handle r) (fsm_state r)) (intervals r)"
    using assms(1) by (simp add: handles_wf_def)
  show ?thesis
  proof (cases i)
  case Start
  with assms have st: "fsm_state r = Stopped"
    and r': "r' = state_starting (enter Starting r)"
    by (auto simp: step_def start_def split: if_splits)
  have "intervals r = []" using no_intervals[OF assms(1)] st by simp
  moreover have poll: "list_all is_poll (in_flight r)" using all_poll[OF assms(1)] st by simp
  moreover have "list_all (callback_live (Suc (fsm_handle r)) Starting) (in_flight r)"
    using cbs poll by (rule list_all_next)
  ultimately show ?thesis using r'
    by (simp add: handles_wf_def state_starting_def enter_def filter_not_poll)
next
  case Stop
  with assms have st: "fsm_state r = Running \<or> fsm_state r = Failed"
    and r': "r' = fst (state_stopping (enter Stopping (clearInterval (fsm_handle r) r)))"
    by (auto simp: step_def stop_def split: if_splits prod.splits)
  have poll: "list_all is_poll (in_flight r)" using all_poll[OF assms(1)] st by auto
  have "filter (\<lambda>t. interval_id t \<noteq> fsm_handle r) (intervals r) = []"
    using ivs by (rule no_other_interval)
  moreover have "list_all (callback_live (Suc (fsm_handle r)) Stopping) (in_flight r)"
    using cbs poll by (rule list_all_next)
  ultimately show ?thesis using r' poll
    by (simp add: handles_wf_def state_stopping_def enter_def clearInterval_def Let_def
        filter_not_poll)
next
  case (Tick n)
  with assms have n: "n < length (intervals r)" and r': "r' = poll (intervals r ! n) r"
    by (auto simp: step_def split: if_splits)
  have live: "interval_live (fsm_handle r) (fsm_state r) (intervals r ! n)"
    using assms(1) n by (simp add: handles_wf_def list_all_length)
  show ?thesis
  proof (cases "intervals r ! n")
    case (TickRunning h)
    then show ?thesis using assms(1) r' by (simp add: handles_wf_def poll_def)
  next
    case (TickFailed h)
    then show ?thesis using assms(1) r' live by (simp add: handles_wf_def poll_def)
  qed
next
  case (FetchDone n res)
  with assms have n: "n < length (in_flight r)"
    and out: "callback rnd (in_flight r ! n) res
                (r\<lparr>in_flight := take n (in_flight r) @ drop (Suc n) (in_flight r)\<rparr>) = Done r' evs"
    by (auto simp: step_def split: if_splits)
  let ?rest = "take n (in_flight r) @ drop (Suc n) (in_flight r)"
  have rest: "list_all (callback_live (fsm_handle r) (fsm_state r)) ?rest"
    using cbs by (rule list_all_take_drop)
  have le: "length (filter (\<lambda>cb. \<not> is_poll cb) ?rest) \<le> 1"
    using assms(1) length_filter_take_drop_le[of "\<lambda>cb. \<not> is_poll cb" n "in_flight r"]
    by (simp add: handles_wf_def)
  note iv = ivs
  have same: "handles_wf (r\<lparr>in_flight := ?rest, vmr_lastPoll := False\<rparr>)"
    using rest le iv by (simp add: handles_wf_def)
  show ?thesis
  proof (cases "in_flight r ! n")
    case (CbStarting h)
    note facts = after_starting_all_poll[OF assms(1) n CbStarting]
    have none: "intervals r = []" using no_intervals[OF assms(1)] facts(3) by simp
    have nxt: "list_all (callback_live (Suc (fsm_handle r)) st') ?rest" for st'
      using rest facts(1) by (rule list_all_next)
    show ?thesis
    proof (cases res)
      case (FetchError err)
      with out CbStarting facts(3) have "r' = state_failed (enter Failed (r\<lparr>in_flight := ?rest\<rparr>))"
        by (simp add: callback_def)
      then show ?thesis using none nxt facts(1)
        by (simp add: handles_wf_def state_failed_def enter_def filter_not_poll)
    next
      case (FetchOk bes)
      with out CbStarting facts(2)
      have "r' = fst (state_running rnd (enter Running
                   (r\<lparr>in_flight := ?rest, vmr_discovered_backends := bes\<rparr>)))"
        by (simp add: callback_def gotoState_running_def split: prod.splits)
      then show ?thesis using none nxt facts(1)
        by (simp add: handles_wf_def state_running_eq diffAndEmit_frame enter_def filter_not_poll)
    qed
  next
    case CbRunning
    show ?thesis
    proof (cases res)
      case (FetchError err)
      with out CbRunning have "r' = r\<lparr>in_flight := ?rest, vmr_lastPoll := False\<rparr>"
        by (simp add: callback_def)
      then show ?thesis using same by simp
    next
      case (FetchOk bes)
      with out CbRunning
      have "r' = fst (diffAndEmit rnd (r\<lparr>in_flight := ?rest, vmr_lastPoll := False,
                   vmr_discovered_backends := bes\<rparr>))"
        by (simp add: callback_def split: prod.splits)
      then show ?thesis using rest le iv
        by (simp add: handles_wf_def diffAndEmit_frame)
    qed
  next
    case (CbFailed h)
    show ?thesis
    proof (cases res)
      case (FetchError err)
      with out CbFailed have "r' = r\<lparr>in_flight := ?rest, vmr_lastPoll := False\<rparr>"
        by (simp add: callback_def)
      then show ?thesis using same by simp
    next
      case (FetchOk bes)
      with out CbFailed have h: "h = fsm_handle r"
        by (simp add: callback_def gotoState_running_def clearInterval_def split: if_splits)
      with out CbFailed FetchOk
      have r': "r' = fst (state_running rnd (enter Running
                   ((clearInterval (fsm_handle r) (r\<lparr>in_flight := ?rest, vmr_lastPoll := False\<rparr>))
                      \<lparr>vmr_discovered_backends := bes\<rparr>)))"
        by (simp add: callback_def gotoState_running_def clearInterval_def split: prod.splits)
      have "callback_live (fsm_handle r) (fsm_state r) (in_flight r ! n)"
        using assms(1) n by (simp add: handles_wf_def list_all_length)
      then have st: "fsm_state r = Failed" using CbFailed h by simp
      then have "list_all is_poll (in_flight r)"
        using all_poll[OF assms(1)] by simp
      then have poll: "list_all is_poll ?rest"
        by (rule list_all_take_drop)
      have "filter (\<lambda>t. interval_id t \<noteq> fsm_handle r) (intervals r) = []"
        using iv by (rule no_other_interval)
      moreover have "list_all (callback_live (Suc (fsm_handle r)) Running) ?rest"
        using rest poll by (rule list_all_next)
      ultimately show ?thesis using r' poll
        by (simp add: handles_wf_def state_running_eq diffAndEmit_frame enter_def
            clearInterval_def filter_not_poll)
    qed
  qed
next
  case Immediate
  with assms have st: "fsm_state r = Stopping" and r': "r' = enter Stopped r"
    by (auto simp: step_def split: if_splits)
  have "intervals r = []" using no_intervals[OF assms(1)] st by simp
  moreover have poll: "list_all is_poll (in_flight r)" using all_poll[OF assms(1)] st by simp
  moreover have "list_all (callback_live (Suc (fsm_handle r)) Stopped) (in_flight r)"
    using cbs poll by (rule list_all_next)
  ultimately show ?thesis using r'
    by (simp add: handles_wf_def enter_def filter_not_poll)
  qed
qed

lemma keyed_put_all: "keyed (put_all p kes [])"
proof -
  have "distinct (map fst (put_all p kes []))"
    by (rule distinct_put_all) simp
  moreover have "key b = k" if "(k, b) \<in> set (put_all p kes [])" for k b
    using set_put_all[of p kes "[]"] that by (auto simp: mk_backend_def)
  ultimately show ?thesis
    by (auto simp: keyed_def list_all_iff)
qed

lemma step_effect:
  assumes "step rnd r i = Done r' evs"
  shows "vmr_backend_port r' = vmr_backend_port r \<and>
         ((vmr_backends r' = vmr_backends r \<or> vmr_backends r' = []) \<and>
            random_calls r' = random_calls r \<or>
          (\<exists>bes. vmr_backends r' =
                    put_all (vmr_backend_port r)
                      (zip (assigned_keys rnd (vmr_backends r) bes (random_calls r)) bes) [] \<and>
                 random_calls r' = random_calls r + not_found (vmr_backends r) bes))"
proof (cases i)
  case Start
  with assms show ?thesis
    by (auto simp: step_def start_def enter_def state_starting_def split: if_splits)
next
  case Stop
  with assms show ?thesis
    by (auto simp: step_def stop_def enter_def state_stopping_def clearInterval_def Let_def
             split: if_splits)
next
  case (Tick n)
  with assms show ?thesis
    by (auto simp: step_def poll_def split: if_splits)
next
  case (FetchDone n res)
  with assms have n: "n < length (in_flight r)"
    and out: "callback rnd (in_flight r ! n) res
                (r\<lparr>in_flight := take n (in_flight r) @ drop (Suc n) (in_flight r)\<rparr>) = Done r' evs"
    by (auto simp: step_def split: if_splits)
  show ?thesis
  proof (cases res)
    case (FetchError err)
    with out show ?thesis
      by (cases "in_flight r ! n")
         (auto simp: callback_def enter_def state_failed_def split: if_splits)
  next
    case (FetchOk bes)
    have "vmr_backend_port r' = vmr_backend_port r \<and>
          vmr_backends r' =
            put_all (vmr_backend_port r)
              (zip (assigned_keys rnd (vmr_backends r) bes (random_calls r)) bes) [] \<and>
          random_calls r' = random_calls r + not_found (vmr_backends r) bes"
      using out FetchOk
      by (cases "in_flight r ! n")
         (auto simp: callback_def gotoState_running_def state_running_eq enter_def
               clearInterval_def split_beta diffAndEmit_frame diffAndEmit_backends
               diffAndEmit_random_calls split: if_splits)
    then show ?thesis by blast
  qed
next
  case Immediate
  with assms show ?thesis
    by (auto simp: step_def enter_def split: if_splits)
qed

lemma step_keyed:
  assumes "keyed (vmr_backends r)" "step rnd r i = Done r' evs"
  shows "keyed (vmr_backends r')"
  using step_effect[OF assms(2)] assms(1) keyed_put_all
  by (auto simp: keyed_def)

lemma invariant_init: "invariant (VmapiResolver p)"
  by (simp add: invariant_def keyed_def poll_guard_def handles_wf_def VmapiResolver_def)

lemma step_invariant:
  "invariant r \<Longrightarrow> step rnd r i = Done r' evs \<Longrightarrow> invariant r'"
  unfolding invariant_def using step_keyed step_poll_guard step_handles_wf by blast

lemma run_invariant:
  "invariant r \<Longrightarrow> run rnd r ins = Some (r', evs) \<Longrightarrow> invariant r'"
proof (induction ins arbitrary: r evs)
  case Nil
  then show ?case by simp
next
  case (Cons i ins)
  from Cons.prems(2) obtain r1 evs1 evs2 where
    s: "step rnd r i = Done r1 evs1" and rest: "run rnd r1 ins = Some (r', evs2)"
    by (auto split: outcome.splits option.splits)
  from Cons.prems(1) s have "invariant r1" by (rule step_invariant)
  then show ?case using rest by (rule Cons.IH)
qed

lemma reachable_invariant:
  "run rnd (VmapiResolver p) ins = Some (r, evs) \<Longrightarrow> invariant r"
  using invariant_init by (rule run_invariant)

subsection \<open>The example states are states of runs\<close>

lemma run_polling_db1:
  "run example_keys (VmapiResolver 5432) [Start, FetchDone 0 (FetchOk [db1]), Tick 0] =
     Some (polling_db1, [Added ''q83vEjRWeJAS'' (Some (mk_backend 5432 db1 ''q83vEjRWeJAS''))])"
  by (simp add: state_defs example_defs resolver_defs)

lemma run_polling_failed:
  "run example_keys (VmapiResolver 5432)
     [Start, FetchDone 0 (FetchError ''connect ECONNREFUSED''), Tick 0] =
     Some (polling_failed, [])"
  by (simp add: state_defs example_defs resolver_defs)

lemma run_running_two:
  "run example_keys (VmapiResolver 5432) [Start, FetchDone 0 (FetchOk [db1, db2])] =
     Some (running_two,
           [Added ''q83vEjRWeJAS'' (Some (mk_backend 5432 db1 ''q83vEjRWeJAS'')),
            Added ''EjRWeJq83vAB'' (Some (mk_backend 5432 db2 ''EjRWeJq83vAB''))])"
  by (simp add: state_defs example_defs resolver_defs)

lemma run_stopped_polling:
  "run example_keys (VmapiResolver 5432)
     [Start, FetchDone 0 (FetchOk [db1]), Tick 0, Stop, Immediate] =
     Some (stopped_polling,
           [Added ''q83vEjRWeJAS'' (Some (mk_backend 5432 db1 ''q83vEjRWeJAS'')),
            Removed ''q83vEjRWeJAS''])"
  by (simp add: state_defs example_defs resolver_defs)

lemma run_stopped_failed_polling:
  "run example_keys (VmapiResolver 5432)
     [Start, FetchDone 0 (FetchError ''connect ECONNREFUSED''), Tick 0, Stop, Immediate] =
     Some (stopped_failed_polling, [])"
  by (simp add: state_defs example_defs resolver_defs)

section \<open>The poll loop\<close>

text \<open>
  C10. In every state that a run from a new resolver reaches, a tick of any live interval
  timer (of \<open>state_running\<close> or of \<open>state_failed\<close>) that fires while the fetch of an
  earlier tick is still in flight changes nothing: it starts no fetch and leaves no trace.
  That earlier fetch is the only poll in flight.
\<close>

theorem tick_dropped_while_polling:
  assumes "run rnd (VmapiResolver p) ins = Some (r, evs)"
    and "n < length (intervals r)"
    and "list_ex is_poll (in_flight r)"
  shows "step rnd r (Tick n) = Done r [] \<and> length (filter is_poll (in_flight r)) = 1"
proof -
  have "poll_guard r"
    using reachable_invariant[OF assms(1)] by (simp add: invariant_def)
  moreover have "filter is_poll (in_flight r) \<noteq> []"
    using assms(3) by (simp add: list_ex_iff filter_empty_conv)
  ultimately have "vmr_lastPoll r" and "length (filter is_poll (in_flight r)) = 1"
    by (auto simp: poll_guard_def split: if_splits)
  then show ?thesis using assms(2) by (simp add: step_def poll_def)
qed

theorem tick_dropped_while_polling_witness:
  "step example_keys polling_db1 (Tick 0) = Done polling_db1 [] \<and>
   in_flight polling_db1 = [CbRunning] \<and>
   step example_keys polling_failed (Tick 0) = Done polling_failed [] \<and>
   in_flight polling_failed = [CbFailed 2]"
  using tick_dropped_while_polling [OF run_polling_db1, of 0]
    tick_dropped_while_polling [OF run_polling_failed, of 0]
  by (simp add: state_defs)

text \<open>
  C8. When a fetch fails while the resolver is in \<open>running\<close>, no event is emitted, the
  advertised backends stay as they are, and the state machine stays in the same entry of
  \<open>running\<close> with its interval timers.
\<close>

theorem failed_fetch_while_running:
  assumes "fsm_state r = Running" and "n < length (in_flight r)"
  shows "\<exists>r'. step rnd r (FetchDone n (FetchError err)) = Done r' [] \<and>
              list r' = list r \<and> fsm_state r' = Running \<and> fsm_handle r' = fsm_handle r \<and>
              intervals r' = intervals r"
  using assms
  by (cases "in_flight r ! n") (simp_all add: step_def callback_def list_def)

theorem failed_fetch_while_running_witness:
  "fsm_state polling_db1 = Running \<and>
   step example_keys polling_db1 (FetchDone 0 (FetchError ''connect ETIMEDOUT'')) =
     Done (polling_db1\<lparr>in_flight := [], vmr_lastPoll := False\<rparr>) [] \<and>
   list (polling_db1\<lparr>in_flight := [], vmr_lastPoll := False\<rparr>) = list polling_db1"
  using failed_fetch_while_running [of polling_db1 0 example_keys "''connect ETIMEDOUT''"]
  by (simp add: state_defs step_def callback_def list_def)

section \<open>Stopping\<close>

lemma map_filter_map_of:
  assumes "distinct (map fst cs)" "set bs \<subseteq> set cs"
  shows "List.map_filter (map_of cs) (map fst bs) = map snd bs"
  using assms(2)
proof (induction bs)
  case Nil
  then show ?case by simp
next
  case (Cons b bs)
  obtain k v where b: "b = (k, v)" by (cases b)
  with Cons.prems have "(k, v) \<in> set cs" by simp
  with assms(1) have "map_of cs k = Some v" by simp
  then show ?case using Cons b by simp
qed

lemma state_stopping_keyed:
  assumes "keyed (vmr_backends r)"
  shows "state_stopping r =
           (r\<lparr>vmr_lastRemoved := map RemovedBackend (map snd (vmr_backends r)), vmr_backends := []\<rparr>,
            map Removed (map fst (vmr_backends r)))"
proof -
  have "List.map_filter (map_of (vmr_backends r)) (map fst (vmr_backends r)) = map snd (vmr_backends r)"
    using assms by (intro map_filter_map_of) (simp_all add: keyed_def)
  moreover have "map (\<lambda>to_remove. Removed (key to_remove)) (map snd (vmr_backends r)) =
                 map Removed (map fst (vmr_backends r))"
    using assms by (auto simp: keyed_def list_all_iff)
  ultimately show ?thesis
    by (simp add: state_stopping_def)
qed

text \<open>
  C7. In every state of \<open>running\<close> that a run from a new resolver reaches, \<open>stop\<close> emits
  one \<open>removed\<close> event for each key of the advertised set, the keys being pairwise
  different, and no other event; it empties the set, so that \<open>list\<close> returns the empty
  dictionary, also after the immediate has taken the resolver to \<open>stopped\<close>.
\<close>

theorem stop_running_removes_all:
  assumes "run rnd (VmapiResolver p) ins = Some (r, evs)" and "fsm_state r = Running"
  shows "\<exists>r'. step rnd r Stop = Done r' (map Removed (map fst (list r))) \<and>
              distinct (map fst (list r)) \<and> list r' = [] \<and>
              step rnd r' Immediate = Done (enter Stopped r') [] \<and>
              fsm_state (enter Stopped r') = Stopped \<and> list (enter Stopped r') = []"
proof -
  have k: "keyed (vmr_backends r)"
    using reachable_invariant[OF assms(1)] by (simp add: invariant_def)
  then have "keyed (vmr_backends (enter Stopping (clearInterval (fsm_handle r) r)))"
    by (simp add: enter_def clearInterval_def)
  note state_stopping_keyed[OF this]
  then show ?thesis using assms(2) k
    by (simp add: step_def stop_def list_def enter_def clearInterval_def keyed_def)
qed

theorem stop_running_removes_all_witness:
  "fsm_state running_two = Running \<and>
   step example_keys running_two Stop =
     Done (running_two\<lparr>vmr_backends := [], fsm_state := Stopping, fsm_handle := 3, intervals := [],
             vmr_lastRemoved := [RemovedBackend (mk_backend 5432 db1 ''q83vEjRWeJAS''),
                                 RemovedBackend (mk_backend 5432 db2 ''EjRWeJq83vAB'')]\<rparr>)
          [Removed ''q83vEjRWeJAS'', Removed ''EjRWeJq83vAB'']"
  using stop_running_removes_all [OF run_running_two]
  by (simp add: state_defs example_defs resolver_defs)

section \<open>A fetch that outlives its state\<close>

text \<open>
  C1. The result of a poll of \<open>state_running\<close> that is still in flight when \<open>stop\<close> is
  called is not discarded. The resolver starts, advertises \<open>db1\<close>, polls, is stopped and
  reaches \<open>stopped\<close> with an empty set; then the poll completes: \<open>diffAndEmit\<close> runs, an
  \<open>added\<close> event is emitted and \<open>list\<close> is no longer empty, in the state \<open>stopped\<close>.
\<close>

theorem stale_fetch_repopulates_stopped_resolver:
  "run example_keys (VmapiResolver 5432)
     [Start, FetchDone 0 (FetchOk [db1]), Tick 0, Stop, Immediate] =
     Some (stopped_polling,
           [Added ''q83vEjRWeJAS'' (Some (mk_backend 5432 db1 ''q83vEjRWeJAS'')),
            Removed ''q83vEjRWeJAS'']) \<and>
   fsm_state stopped_polling = Stopped \<and> list stopped_polling = [] \<and>
   step example_keys stopped_polling (FetchDone 0 (FetchOk [db1])) =
     Done (stopped_polling\<lparr>vmr_backends := [(''EjRWeJq83vAB'', mk_backend 5432 db1 ''EjRWeJq83vAB'')],
             vmr_lastPoll := False, vmr_lastAdded := [''EjRWeJq83vAB''], vmr_lastRemoved := [],
             random_calls := 2, in_flight := []\<rparr>)
          [Added ''EjRWeJq83vAB'' (Some (mk_backend 5432 db1 ''EjRWeJq83vAB''))]"
  by (simp add: state_defs example_defs resolver_defs list_def)

text \<open>
  The poll of \<open>state_failed\<close> differs: its result reaches the set only through a
  transition to \<open>running\<close>, which the stale handle does not get.
\<close>

lemma stale_failed_poll_is_refused:
  "run example_keys (VmapiResolver 5432)
     [Start, FetchDone 0 (FetchError ''connect ECONNREFUSED''), Tick 0, Stop, Immediate] =
     Some (stopped_failed_polling, []) \<and>
   step example_keys stopped_failed_polling (FetchDone 0 (FetchOk [db1])) =
     Threw StaleStateHandle
       (stopped_failed_polling\<lparr>vmr_discovered_backends := [db1], vmr_lastPoll := False,
          in_flight := []\<rparr>)"
  by (simp add: state_defs example_defs resolver_defs)

section \<open>The queries\<close>

text \<open>
  C2. \<open>count\<close> does not return the number of advertised backends: for the running
  resolver that advertises \<open>db1\<close> and \<open>db2\<close> it returns \<open>undefined\<close>, and so it does for a
  new resolver.
\<close>

theorem count_is_undefined:
  "run example_keys (VmapiResolver 5432) [Start, FetchDone 0 (FetchOk [db1, db2])] =
     Some (running_two,
           [Added ''q83vEjRWeJAS'' (Some (mk_backend 5432 db1 ''q83vEjRWeJAS'')),
            Added ''EjRWeJq83vAB'' (Some (mk_backend 5432 db2 ''EjRWeJq83vAB''))]) \<and>
   map fst (list running_two) = [''q83vEjRWeJAS'', ''EjRWeJq83vAB''] \<and>
   count running_two = None \<and>
   count (VmapiResolver 5432) = None"
  by (simp add: state_defs example_defs resolver_defs list_def count_def)

text \<open>
  C3. \<open>getLastError\<close> does not return the error of a failed fetch: after the fetch of
  \<open>state_starting\<close> has failed, and after a poll of \<open>state_running\<close> has failed, it
  returns \<open>undefined\<close>.
\<close>

theorem getLastError_is_undefined:
  "run example_keys (VmapiResolver 5432) [Start, FetchDone 0 (FetchError ''connect ECONNREFUSED'')] =
     Some ((VmapiResolver 5432)\<lparr>fsm_state := Failed, fsm_handle := 2, intervals := [TickFailed 2]\<rparr>, []) \<and>
   getLastError ((VmapiResolver 5432)\<lparr>fsm_state := Failed, fsm_handle := 2,
                   intervals := [TickFailed 2]\<rparr>) = None \<and>
   step example_keys polling_db1 (FetchDone 0 (FetchError ''connect ETIMEDOUT'')) =
     Done (polling_db1\<lparr>in_flight := [], vmr_lastPoll := False\<rparr>) [] \<and>
   getLastError (polling_db1\<lparr>in_flight := [], vmr_lastPoll := False\<rparr>) = None"
  by (simp add: state_defs example_defs resolver_defs getLastError_def)

section \<open>One key for one name and address\<close>

lemma same_backend_mk:
  "same_backend (mk_backend p be' k) be \<longleftrightarrow> be' = be"
  by (cases be, cases be') (auto simp: same_backend_def mk_backend_def)

lemma in_put_all:
  assumes "(k, b) \<in> set (put_all p (zip (assigned_keys rnd old bes n) bes) [])"
  obtains be where "be \<in> set bes" "b = mk_backend p be k"
    "find_key old be = Some k \<or> (find_key old be = None \<and> k \<in> rnd ` {n..<n + not_found old bes})"
proof -
  from assms set_put_all[of p "zip (assigned_keys rnd old bes n) bes" "[]"]
  obtain be where z: "(k, be) \<in> set (zip (assigned_keys rnd old bes n) bes)"
    and b: "b = mk_backend p be k"
    by auto
  from z have "be \<in> set bes" by (rule set_zip_rightD)
  with b assigned_keys_origin[OF z] that show thesis by blast
qed

text \<open>
  C4, as the code has it. In every set of backends that \<open>diffAndEmit\<close> produces the keys
  are pairwise different; and a name and address that the previous set holds (so that the
  inner loop finds a key \<open>k\<close> for it) is held under no key but \<open>k\<close> in the new set, however
  many discovered endpoints report it.
\<close>

theorem diffAndEmit_one_key_for_known_pair:
  "distinct (map fst (list (fst (diffAndEmit rnd r)))) \<and>
   (\<forall>k be. find_key (list r) be = Some k \<longrightarrow>
      (\<forall>(k', b) \<in> set (list (fst (diffAndEmit rnd r))). same_backend b be \<longrightarrow> k' = k))"
proof -
  have "distinct (map fst (list (fst (diffAndEmit rnd r))))"
    unfolding list_def diffAndEmit_backends by (rule distinct_put_all) simp
  moreover have "k' = k"
    if f: "find_key (list r) be = Some k"
      and m: "(k', b) \<in> set (list (fst (diffAndEmit rnd r)))"
      and s: "same_backend b be" for k be k' b
  proof -
    from m obtain be' where b: "b = mk_backend (vmr_backend_port r) be' k'"
      and o: "find_key (vmr_backends r) be' = Some k' \<or>
              (find_key (vmr_backends r) be' = None \<and>
               k' \<in> rnd ` {random_calls r..<random_calls r +
                                not_found (vmr_backends r) (vmr_discovered_backends r)})"
      unfolding list_def diffAndEmit_backends by (rule in_put_all)
    from s b have "be' = be" by (simp add: same_backend_mk)
    with o f show ?thesis by (simp add: list_def)
  qed
  ultimately show ?thesis by blast
qed

theorem diffAndEmit_one_key_for_known_pair_witness:
  "find_key (list db1_twice_known) db1 = Some ''q83vEjRWeJAS'' \<and>
   list (fst (diffAndEmit example_keys db1_twice_known)) =
     [(''q83vEjRWeJAS'', mk_backend 5432 db1 ''q83vEjRWeJAS'')] \<and>
   same_backend (mk_backend 5432 db1 ''q83vEjRWeJAS'') db1"
  using diffAndEmit_one_key_for_known_pair [of example_keys db1_twice_known]
  by (simp add: db1_twice_known_def example_defs resolver_defs list_def)

text \<open>
  The claim C4 as stated fails for a name and address that the previous set does not hold:
  the inner loop searches the previous set only, so each of two discovered endpoints with
  the name and address of \<open>db1\<close> draws a key of its own, and the new set holds \<open>db1\<close> under
  two keys.
\<close>

theorem diffAndEmit_two_keys_for_new_pair:
  "list (fst (diffAndEmit example_keys db1_twice_new)) =
     [(''q83vEjRWeJAS'', mk_backend 5432 db1 ''q83vEjRWeJAS''),
      (''EjRWeJq83vAB'', mk_backend 5432 db1 ''EjRWeJq83vAB'')] \<and>
   vmr_discovered_backends db1_twice_new = [db1, db1] \<and>
   mk_backend 5432 db1 ''q83vEjRWeJAS'' =
     \<lparr>name = ''db1'', address = ''10.0.0.1'', port = 5432, key = ''q83vEjRWeJAS''\<rparr> \<and>
   mk_backend 5432 db1 ''EjRWeJq83vAB'' =
     \<lparr>name = ''db1'', address = ''10.0.0.1'', port = 5432, key = ''EjRWeJq83vAB''\<rparr>"
  by (simp add: db1_twice_new_def example_defs resolver_defs list_def)

section \<open>Reconciling twice\<close>

lemma find_key_in_keys:
  "find_key old be = Some k \<Longrightarrow> k \<in> fst ` set old"
proof -
  assume "find_key old be = Some k"
  then obtain b where "map_of old k = Some b" using find_key_SomeD by blast
  then have "(k, b) \<in> set old" by (rule map_of_SomeD)
  then show ?thesis by force
qed

lemma find_key_inj:
  assumes "find_key old be = Some k" "find_key old be' = Some k"
  shows "be = be'"
proof -
  from assms obtain b b' where "map_of old k = Some b" "same_backend b be"
    "map_of old k = Some b'" "same_backend b' be'"
    using find_key_SomeD by blast
  then have "same_backend b be" "same_backend b be'" by simp_all
  then show ?thesis by (cases be, cases be') (simp add: same_backend_def)
qed

lemma assigned_keys_mem:
  assumes "k \<in> set (assigned_keys rnd old bes n)"
  shows "(\<exists>be\<in>set bes. find_key old be = Some k) \<or> k \<in> rnd ` {n..<n + not_found old bes}"
proof -
  have "length (assigned_keys rnd old bes n) = length bes" by (rule length_assigned_keys)
  with assms obtain be where z: "(k, be) \<in> set (zip (assigned_keys rnd old bes n) bes)"
    by (metis in_set_impl_in_set_zip1)
  then have "be \<in> set bes" by (rule set_zip_rightD)
  with assigned_keys_origin[OF z] show ?thesis by blast
qed

lemma distinct_assigned_keys:
  assumes "distinct bes"
    and "inj_on rnd {n..<n + not_found old bes}"
    and "fst ` set old \<inter> rnd ` {n..<n + not_found old bes} = {}"
  shows "distinct (assigned_keys rnd old bes n)"
  using assms
proof (induction bes arbitrary: n)
  case Nil
  then show ?case by simp
next
  case (Cons be bes)
  note inj = Cons.prems(2) and disj = Cons.prems(3)
  show ?case
  proof (cases "find_key old be")
    case None
    then have nf: "not_found old (be # bes) = Suc (not_found old bes)"
      by (simp add: not_found_Cons)
    have sub: "{Suc n..<Suc n + not_found old bes} \<subseteq> {n..<n + not_found old (be # bes)}"
      using nf by auto
    have i': "inj_on rnd {Suc n..<Suc n + not_found old bes}"
      using inj sub by (rule inj_on_subset)
    have d': "fst ` set old \<inter> rnd ` {Suc n..<Suc n + not_found old bes} = {}"
      using disj sub by blast
    have "distinct bes" using Cons.prems(1) by simp
    then have d: "distinct (assigned_keys rnd old bes (Suc n))"
      using i' d' by (rule Cons.IH)
    have "rnd n \<notin> set (assigned_keys rnd old bes (Suc n))"
    proof
      assume "rnd n \<in> set (assigned_keys rnd old bes (Suc n))"
      from assigned_keys_mem[OF this] show False
      proof
        assume "\<exists>be\<in>set bes. find_key old be = Some (rnd n)"
        then have "rnd n \<in> fst ` set old" using find_key_in_keys by blast
        moreover have "rnd n \<in> rnd ` {n..<n + not_found old (be # bes)}" using nf by simp
        ultimately show False using disj by blast
      next
        assume "rnd n \<in> rnd ` {Suc n..<Suc n + not_found old bes}"
        then obtain m where m: "m \<in> {Suc n..<Suc n + not_found old bes}" "rnd n = rnd m" by blast
        then have "m \<in> {n..<n + not_found old (be # bes)}" using sub by blast
        moreover have "n \<in> {n..<n + not_found old (be # bes)}" using nf by simp
        ultimately have "n = m" using inj m(2) by (simp add: inj_on_def)
        with m(1) show False by simp
      qed
    qed
    with d None show ?thesis by simp
  next
    case (Some k)
    then have nf: "not_found old (be # bes) = not_found old bes"
      by (simp add: not_found_Cons)
    with Cons.IH Cons.prems have d: "distinct (assigned_keys rnd old bes n)" by simp
    have "k \<notin> set (assigned_keys rnd old bes n)"
    proof
      assume "k \<in> set (assigned_keys rnd old bes n)"
      from assigned_keys_mem[OF this] show False
      proof
        assume "\<exists>be'\<in>set bes. find_key old be' = Some k"
        then obtain be' where "be' \<in> set bes" "find_key old be' = Some k" by blast
        with Some have "be' = be" "be' \<in> set bes" using find_key_inj by blast+
        with Cons.prems(1) show False by simp
      next
        assume "k \<in> rnd ` {n..<n + not_found old bes}"
        moreover have "k \<in> fst ` set old" using Some by (rule find_key_in_keys)
        ultimately show False using disj nf by auto
      qed
    qed
    with d Some show ?thesis by simp
  qed
qed

lemma update_new_key:
  "k \<notin> fst ` set al \<Longrightarrow> AList.update k v al = al @ [(k, v)]"
  by (induction al) auto

lemma put_all_new_keys:
  assumes "distinct (map fst kes)" "fst ` set kes \<inter> fst ` set nb = {}"
  shows "put_all p kes nb = nb @ map (\<lambda>(k, be). (k, mk_backend p be k)) kes"
  using assms
proof (induction kes arbitrary: nb)
  case Nil
  then show ?case by (simp add: put_all_def)
next
  case (Cons ke kes)
  obtain k be where ke: "ke = (k, be)" by (cases ke)
  have step: "put_all p (ke # kes) nb = put_all p kes (AList.update k (mk_backend p be k) nb)"
    by (simp add: put_all_def ke)
  have new: "k \<notin> fst ` set nb" using Cons.prems(2) ke by auto
  then have upd: "AList.update k (mk_backend p be k) nb = nb @ [(k, mk_backend p be k)]"
    by (rule update_new_key)
  have "fst ` set kes \<inter> fst ` set (nb @ [(k, mk_backend p be k)]) = {}"
    using Cons.prems ke by auto
  moreover have "distinct (map fst kes)" using Cons.prems(1) by simp
  ultimately have "put_all p kes (nb @ [(k, mk_backend p be k)]) =
                   (nb @ [(k, mk_backend p be k)]) @ map (\<lambda>(k, be). (k, mk_backend p be k)) kes"
    by (rule Cons.IH[rotated])
  then show ?case using step upd ke by simp
qed

lemma find_key_own:
  assumes "distinct (map fst kes)" "distinct (map snd kes)" "(k, be) \<in> set kes"
  shows "find_key (map (\<lambda>(k, be). (k, mk_backend p be k)) kes) be = Some k"
proof -
  let ?N = "map (\<lambda>(k, be). (k, mk_backend p be k)) kes"
  have keys: "map fst ?N = map fst kes" by (induction kes) auto
  have mem: "(k', b) \<in> set ?N \<Longrightarrow> \<exists>be'. (k', be') \<in> set kes \<and> b = mk_backend p be' k'" for k' b
    by auto
  have dN: "distinct (map fst ?N)" using assms(1) by (simp only: keys)
  have "(k, mk_backend p be k) \<in> set ?N" using assms(3) by force
  with dN have "map_of ?N k = Some (mk_backend p be k)"
    by (rule map_of_is_SomeI)
  then have "find_key ?N be \<noteq> None"
    unfolding find_key_None_iff using same_backend_mk by blast
  then obtain k' where k': "find_key ?N be = Some k'" by blast
  then obtain b where "map_of ?N k' = Some b" "same_backend b be"
    using find_key_SomeD by blast
  then have "(k', b) \<in> set ?N" "same_backend b be" by (auto dest: map_of_SomeD)
  with mem obtain be' where "(k', be') \<in> set kes" "same_backend (mk_backend p be' k') be"
    by blast
  then have "(k', be) \<in> set kes" by (simp add: same_backend_mk)
  with assms(2,3) have "k' = k"
    by (metis distinct_map inj_onD snd_conv fst_conv)
  with k' show ?thesis by simp
qed

lemma assigned_keys_own:
  assumes "length ks = length bes"
    and "\<forall>(k, be) \<in> set (zip ks bes). find_key old be = Some k"
  shows "assigned_keys rnd old bes n = ks \<and> not_found old bes = 0"
  using assms
proof (induction ks bes rule: list_induct2)
  case Nil
  then show ?case by (simp add: not_found_def)
next
  case (Cons k ks be bes)
  then show ?case by (simp add: not_found_Cons)
qed

lemma removed_keys_same: "removed_keys bs bs = []"
  unfolding removed_keys_def filter_empty_conv
  by (simp add: map_of_eq_None_iff)

text \<open>
  C5, as the code has it. When no two discovered endpoints have the same name and address,
  and the keys drawn by a first \<open>diffAndEmit\<close> are new (pairwise different and different
  from the keys of the set), a second \<open>diffAndEmit\<close> on the same discovered list emits no
  event and leaves the set of backends as the first one made it.
\<close>

theorem diffAndEmit_twice:
  assumes "distinct (vmr_discovered_backends r)"
    and "distinct (map fst (list r) @
                   map rnd [random_calls r..<random_calls (fst (diffAndEmit rnd r))])"
  shows "snd (diffAndEmit rnd (fst (diffAndEmit rnd r))) = [] \<and>
         list (fst (diffAndEmit rnd (fst (diffAndEmit rnd r)))) = list (fst (diffAndEmit rnd r))"
proof -
  let ?old = "vmr_backends r" and ?bes = "vmr_discovered_backends r" and ?n = "random_calls r"
  let ?p = "vmr_backend_port r"
  let ?r1 = "fst (diffAndEmit rnd r)"
  let ?ks = "assigned_keys rnd ?old ?bes ?n"
  let ?kes = "zip ?ks ?bes"
  let ?N = "map (\<lambda>(k, be). (k, mk_backend ?p be k)) ?kes"
  have len: "length ?ks = length ?bes" by (rule length_assigned_keys)
  have n1: "random_calls ?r1 = ?n + not_found ?old ?bes" by (rule diffAndEmit_random_calls)
  from assms(2) have inj: "inj_on rnd {?n..<?n + not_found ?old ?bes}"
    and disj: "fst ` set ?old \<inter> rnd ` {?n..<?n + not_found ?old ?bes} = {}"
    unfolding n1 list_def by (auto simp: distinct_map)
  have dks: "distinct ?ks" using assms(1) inj disj by (rule distinct_assigned_keys)
  have fst_kes: "map fst ?kes = ?ks" and snd_kes: "map snd ?kes = ?bes"
    using len by simp_all
  have "put_all ?p ?kes [] = [] @ ?N"
    by (rule put_all_new_keys) (simp_all add: fst_kes dks)
  then have b1: "vmr_backends ?r1 = ?N" by (simp add: diffAndEmit_backends)
  have own: "\<forall>(k, be) \<in> set ?kes. find_key ?N be = Some k"
    using find_key_own[of ?kes _ _ ?p] dks assms(1) by (auto simp: fst_kes snd_kes)
  note again = assigned_keys_own[OF len own, of rnd "random_calls ?r1"]
  have b2: "vmr_backends (fst (diffAndEmit rnd ?r1)) = vmr_backends ?r1"
    using again b1 by (simp add: diffAndEmit_backends diffAndEmit_frame)
  have "random_calls (fst (diffAndEmit rnd ?r1)) = random_calls ?r1"
    using again b1 by (simp add: diffAndEmit_random_calls diffAndEmit_frame)
  then have "snd (diffAndEmit rnd ?r1) = []"
    by (subst diffAndEmit_events) (simp add: b2 removed_keys_same)
  with b2 show ?thesis by (simp add: list_def)
qed

theorem diffAndEmit_twice_witness:
  "vmr_discovered_backends db1_then_db2 = [db2] \<and>
   map fst (list db1_then_db2) @
     map example_keys [random_calls db1_then_db2..<random_calls (fst (diffAndEmit example_keys db1_then_db2))] =
     [''q83vEjRWeJAS'', ''EjRWeJq83vAB''] \<and>
   snd (diffAndEmit example_keys db1_then_db2) =
     [Added ''EjRWeJq83vAB'' (Some (mk_backend 5432 db2 ''EjRWeJq83vAB'')), Removed ''q83vEjRWeJAS''] \<and>
   snd (diffAndEmit example_keys (fst (diffAndEmit example_keys db1_then_db2))) = [] \<and>
   list (fst (diffAndEmit example_keys (fst (diffAndEmit example_keys db1_then_db2)))) =
     [(''EjRWeJq83vAB'', mk_backend 5432 db2 ''EjRWeJq83vAB'')]"
  using diffAndEmit_twice [of db1_then_db2 example_keys]
  by (simp add: example_defs resolver_defs list_def)

text \<open>
  The claim C5 as stated fails: from the empty set and the discovered list that holds
  \<open>db1\<close> twice, the first \<open>diffAndEmit\<close> adds two keys and the second, on the same list,
  emits a \<open>removed\<close> event for the first of them and leaves one backend.
\<close>

theorem second_diff_removes_duplicate:
  "vmr_discovered_backends (fst (diffAndEmit example_keys db1_twice_new)) = [db1, db1] \<and>
   snd (diffAndEmit example_keys (fst (diffAndEmit example_keys db1_twice_new))) =
     [Removed ''q83vEjRWeJAS''] \<and>
   list (fst (diffAndEmit example_keys (fst (diffAndEmit example_keys db1_twice_new)))) =
     [(''EjRWeJq83vAB'', mk_backend 5432 db1 ''EjRWeJq83vAB'')]"
  by (simp add: db1_twice_new_def example_defs resolver_defs list_def)

section \<open>Keys of a name and address that comes back\<close>












end
